theory Spec2Isabelle
  imports Complex_Main
begin

section \<open>The load generator of machine\_gun.py\<close>

text \<open>
  The class \<open>MachineGun\<close> keeps one dictionary of statistics, sends HTTP requests
  through an aiohttp session and drives five attack strategies over it. The network,
  the wall clock and the random module are the environment of the program: what they
  answer is an input of the model. Instants and durations are exact rationals (the
  source holds them in floats).
\<close>

type_synonym time = rat

subsection \<open>Exceptions\<close>

text \<open>
  \<open>except Exception\<close> catches the classes derived from \<open>Exception\<close> (the aiohttp
  client errors, \<open>asyncio.TimeoutError\<close>, \<open>OSError\<close>, an \<open>AttributeError\<close> on a session
  that was never opened); a class derived from \<open>BaseException\<close> only
  (\<open>asyncio.CancelledError\<close>, \<open>KeyboardInterrupt\<close>) passes through it.
\<close>

datatype exc_class = ExceptionSubclass | BaseExceptionOnly

datatype error =
    ZeroDivisionError
  | ValueError
  | Raised exc_class string

subsection \<open>The statistics dictionary\<close>

datatype error_entry =
    StatusEntry int string time
  | ErrorEntry string string time

record stats =
  total_requests :: int
  successful_requests :: int
  failed_requests :: int
  response_times :: "time list"
  errors :: "error_entry list"

definition init_stats :: stats where
  "init_stats =
     \<lparr>total_requests = 0, successful_requests = 0, failed_requests = 0,
      response_times = [], errors = []\<rparr>"

subsection \<open>One request\<close>

text \<open>
  What the target and the network do with one request. \<open>Responds status d_head content
  d_body\<close>: the status line and headers arrive \<open>d_head\<close> seconds after the send, and
  reading the body takes \<open>d_body\<close> seconds more. \<open>BodyRaises\<close>: the head arrives, then
  \<open>response.text()\<close> raises. \<open>RequestRaises\<close>: \<open>session.request\<close> itself raises.
\<close>

datatype behaviour =
    Responds int time string time
  | BodyRaises int time exc_class string time
  | RequestRaises exc_class string time

text \<open>The dictionary \<open>make_request\<close> returns: with a status, or with an error.\<close>

datatype reply =
    StatusReply int time string
  | ErrorReply string time

fun reply_status :: "reply \<Rightarrow> int option" where
  "reply_status (StatusReply status response_time content) = Some status"
| "reply_status (ErrorReply msg response_time) = None"

fun reply_error :: "reply \<Rightarrow> string option" where
  "reply_error (StatusReply status response_time content) = None"
| "reply_error (ErrorReply msg response_time) = Some msg"

fun reply_time :: "reply \<Rightarrow> time" where
  "reply_time (StatusReply status response_time content) = response_time"
| "reply_time (ErrorReply msg response_time) = response_time"

text \<open>
  The \<open>except Exception as e\<close> clause of \<open>make_request\<close>; \<open>t_now\<close> is what
  \<open>time.time()\<close> reads when the clause runs.
\<close>

definition handle_exception ::
  "stats \<Rightarrow> string \<Rightarrow> time \<Rightarrow> time \<Rightarrow> exc_class \<Rightarrow> string \<Rightarrow> error + stats \<times> reply" where
  "handle_exception st endpoint start_time t_now cls msg =
     (if cls = ExceptionSubclass then
        let response_time = t_now - start_time;
            st1 = st\<lparr>total_requests := total_requests st + 1\<rparr>;
            st2 = st1\<lparr>failed_requests := failed_requests st1 + 1\<rparr>;
            st3 = st2\<lparr>errors := errors st2 @ [ErrorEntry msg endpoint t_now]\<rparr>
        in Inr (st3, ErrorReply msg response_time)
      else Inl (Raised cls msg))"

text \<open>
  \<open>make_request\<close>, called at the instant \<open>start_time\<close>. The clock is read a second time
  as soon as the \<open>async with\<close> has the response, before \<open>await response.text()\<close>.
\<close>

definition make_request ::
  "stats \<Rightarrow> string \<Rightarrow> time \<Rightarrow> behaviour \<Rightarrow> error + stats \<times> reply" where
  "make_request st endpoint start_time b =
     (case b of
        Responds status d_head content d_body \<Rightarrow>
          let response_time = (start_time + d_head) - start_time;
              t_body = start_time + d_head + d_body;
              st1 = st\<lparr>total_requests := total_requests st + 1\<rparr>;
              st2 = (if status < 400
                     then st1\<lparr>successful_requests := successful_requests st1 + 1\<rparr>
                     else st1\<lparr>failed_requests := failed_requests st1 + 1,
                              errors := errors st1 @ [StatusEntry status endpoint t_body]\<rparr>);
              st3 = st2\<lparr>response_times := response_times st2 @ [response_time]\<rparr>
          in Inr (st3, StatusReply status response_time content)
      | BodyRaises status d_head cls msg d_fail \<Rightarrow>
          handle_exception st endpoint start_time (start_time + d_head + d_fail) cls msg
      | RequestRaises cls msg d_fail \<Rightarrow>
          handle_exception st endpoint start_time (start_time + d_fail) cls msg)"

text \<open>The instant at which the body of the response has been read in full.\<close>

fun body_received :: "time \<Rightarrow> behaviour \<Rightarrow> time option" where
  "body_received start_time (Responds status d_head content d_body) =
     Some (start_time + d_head + d_body)"
| "body_received start_time (BodyRaises status d_head cls msg d_fail) = None"
| "body_received start_time (RequestRaises cls msg d_fail) = None"

text \<open>
  A sequence of calls on the same statistics: each call is an endpoint, the instant of
  the call and what the network does. An exception that leaves \<open>make_request\<close> has
  changed nothing.
\<close>

type_synonym call = "string \<times> time \<times> behaviour"

fun record_call :: "stats \<Rightarrow> call \<Rightarrow> stats" where
  "record_call st (endpoint, start_time, b) =
     (case make_request st endpoint start_time b of
        Inr (st', r) \<Rightarrow> st'
      | Inl e \<Rightarrow> st)"

fun make_requests :: "stats \<Rightarrow> call list \<Rightarrow> stats" where
  "make_requests st [] = st"
| "make_requests st (c # cs) = make_requests (record_call st c) cs"

fun got_response :: "call \<Rightarrow> bool" where
  "got_response (endpoint, start_time, Responds status d_head content d_body) = True"
| "got_response (endpoint, start_time, BodyRaises status d_head cls msg d_fail) = False"
| "got_response (endpoint, start_time, RequestRaises cls msg d_fail) = False"

fun transport_failure :: "call \<Rightarrow> bool" where
  "transport_failure (endpoint, start_time, Responds status d_head content d_body) = False"
| "transport_failure (endpoint, start_time, BodyRaises status d_head cls msg d_fail) =
     (cls = ExceptionSubclass)"
| "transport_failure (endpoint, start_time, RequestRaises cls msg d_fail) =
     (cls = ExceptionSubclass)"

text \<open>
  How a call ended, as the counters see it: a response with a status below 400, a
  response with a status of 400 or more, and, for a call that got a response, the time
  from the send to the response head.
\<close>

fun http_success :: "call \<Rightarrow> bool" where
  "http_success (endpoint, start_time, Responds status d_head content d_body) = (status < 400)"
| "http_success (endpoint, start_time, BodyRaises status d_head cls msg d_fail) = False"
| "http_success (endpoint, start_time, RequestRaises cls msg d_fail) = False"

fun http_error :: "call \<Rightarrow> bool" where
  "http_error (endpoint, start_time, Responds status d_head content d_body) = (\<not> status < 400)"
| "http_error (endpoint, start_time, BodyRaises status d_head cls msg d_fail) = False"
| "http_error (endpoint, start_time, RequestRaises cls msg d_fail) = False"

fun time_to_head :: "call \<Rightarrow> time" where
  "time_to_head (endpoint, start_time, Responds status d_head content d_body) = d_head"
| "time_to_head (endpoint, start_time, BodyRaises status d_head cls msg d_fail) = d_head"
| "time_to_head (endpoint, start_time, RequestRaises cls msg d_fail) = 0"

subsection \<open>The numpy statistics\<close>

text \<open>
  Modelled from the spec: \<open>np.mean\<close>, \<open>np.min\<close>, \<open>np.max\<close> and \<open>np.percentile\<close> belong
  to the numpy library, which is not part of the repository. The spec names them as
  "mean/min/max/95th-percentile latency (percentile via linear interpolation on the
  sorted latency sequence)". \<open>print_stats\<close> calls them on a non-empty list only.
\<close>

definition np_mean :: "rat list \<Rightarrow> rat" where
  "np_mean xs = sum_list xs / of_nat (length xs)"

definition np_min :: "rat list \<Rightarrow> rat" where
  "np_min xs = Min (set xs)"

definition np_max :: "rat list \<Rightarrow> rat" where
  "np_max xs = Max (set xs)"

text \<open>
  Modelled from the spec: linear interpolation between the two order statistics around
  the rank \<open>(n - 1) * q / 100\<close>.
\<close>

definition np_percentile :: "rat list \<Rightarrow> rat \<Rightarrow> rat" where
  "np_percentile xs q =
     (let sorted_xs = sort xs;
          n = length xs;
          rank = of_nat (n - 1) * (q / 100);
          lo = nat \<lfloor>rank\<rfloor>;
          hi = min (lo + 1) (n - 1);
          gamma = rank - of_int \<lfloor>rank\<rfloor>
      in sorted_xs ! lo + gamma * (sorted_xs ! hi - sorted_xs ! lo))"

subsection \<open>The report\<close>

text \<open>
  What \<open>print_stats\<close> prints, one constructor for each \<open>print\<close> call; a number is kept as
  the value that is formatted.
\<close>

datatype line =
    NoRequestsCompleted
  | Rule
  | Title
  | TotalRequests int
  | Successful int rat
  | Failed int
  | AverageResponseTime rat
  | MinResponseTime rat
  | MaxResponseTime rat
  | Percentile95 rat
  | RecentErrors nat
  | ErrorLine error_entry

text \<open>The slice \<open>xs[-5:]\<close>.\<close>

definition last5 :: "'a list \<Rightarrow> 'a list" where
  "last5 xs = drop (length xs - 5) xs"

definition print_stats :: "stats \<Rightarrow> error + line list" where
  "print_stats st =
     (if response_times st = [] then Inr [NoRequestsCompleted]
      else if total_requests st = 0 then Inl ZeroDivisionError
      else
        let times = response_times st;
            success_rate =
              (of_int (successful_requests st) / of_int (total_requests st)) * 100
        in Inr
          ([Rule, Title, Rule,
            TotalRequests (total_requests st),
            Successful (successful_requests st) success_rate,
            Failed (failed_requests st),
            AverageResponseTime (np_mean times),
            MinResponseTime (np_min times),
            MaxResponseTime (np_max times),
            Percentile95 (np_percentile times 95)] @
           (if errors st \<noteq> []
            then RecentErrors (length (errors st)) # map ErrorLine (last5 (errors st))
            else [])))"

text \<open>The success rate a report shows: the percentage on its \<open>Successful\<close> line, if any.\<close>

fun line_success_rate :: "line \<Rightarrow> rat option" where
  "line_success_rate (Successful n rate) = Some rate"
| "line_success_rate l = None"

fun reported_success_rate :: "line list \<Rightarrow> rat option" where
  "reported_success_rate [] = None"
| "reported_success_rate (l # ls) =
     (case line_success_rate l of
        Some rate \<Rightarrow> Some rate
      | None \<Rightarrow> reported_success_rate ls)"

section \<open>The strategies\<close>

subsection \<open>The event loop\<close>

text \<open>
  The strategies are coroutines of one asyncio event loop. Calling \<open>make_request(...)\<close>
  only creates a coroutine object: the request is sent when the coroutine is started, by
  \<open>asyncio.gather\<close> or, after \<open>asyncio.create_task\<close>, at the next \<open>await\<close> of the strategy.
  The loop runs one coroutine at a time, so the statements of \<open>make_request\<close> that
  update the statistics run without interruption once the outcome of the request is
  there. A run is modelled as a discrete-event simulation: every request has an identity
  (its number in order of creation), the environment fixes what the network does with it
  and how long that takes, and a request in flight is completed when the strategy is
  suspended up to the instant the request finishes. The progress lines a strategy prints
  before its report are left out.
\<close>

datatype json = JStr string | JInt int | JStamped string int

record request =
  req_id :: nat
  req_endpoint :: string
  req_method :: string
  req_json :: "(string \<times> json) list option"

record task =
  task_request :: request
  task_started :: time

text \<open>
  The environment: \<open>respond k\<close> is what the network does with request \<open>k\<close>, \<open>pick k\<close> the
  \<open>k\<close>-th draw of the random module, \<open>fake_text k\<close> what \<open>fake.text()\<close> returns at draw
  \<open>k\<close>, and \<open>overhead k\<close> the time the statements of tick \<open>k\<close> take by themselves.
\<close>

record env =
  respond :: "nat \<Rightarrow> behaviour"
  pick :: "nat \<Rightarrow> nat"
  fake_text :: "nat \<Rightarrow> string"
  overhead :: "nat \<Rightarrow> time"

text \<open>
  The state of a run: the statistics of the gun, the wall clock, the number of random
  draws and of requests created so far, the requests whose \<open>make_request\<close> has finished
  (in order of completion), the tasks created and not yet started, the tasks in flight,
  and the number of ticks.
\<close>

record run =
  gun_stats :: stats
  clock :: time
  draws :: nat
  issued :: nat
  resolved :: "nat list"
  scheduled :: "request list"
  running :: "task list"
  ticks :: nat

definition start_run :: "time \<Rightarrow> run" where
  "start_run t0 =
     \<lparr>gun_stats = init_stats, clock = t0, draws = 0, issued = 0, resolved = [],
      scheduled = [], running = [], ticks = 0\<rparr>"

text \<open>The requests created so far whose \<open>make_request\<close> has not finished.\<close>

definition unresolved :: "run \<Rightarrow> nat list" where
  "unresolved r = filter (\<lambda>k. k \<notin> set (resolved r)) [0..<issued r]"

fun duration_of :: "behaviour \<Rightarrow> time" where
  "duration_of (Responds status d_head content d_body) = d_head + d_body"
| "duration_of (BodyRaises status d_head cls msg d_fail) = d_head + d_fail"
| "duration_of (RequestRaises cls msg d_fail) = d_fail"

definition finish_time :: "env \<Rightarrow> task \<Rightarrow> time" where
  "finish_time e k = task_started k + duration_of (respond e (req_id (task_request k)))"

text \<open>
  A task finishes: its \<open>make_request\<close> updates the statistics and returns, or raises into
  the task (the statistics are then as they were).
\<close>

definition complete :: "env \<Rightarrow> task \<Rightarrow> run \<Rightarrow> run" where
  "complete e k r =
     r\<lparr>gun_stats :=
         record_call (gun_stats r)
           (req_endpoint (task_request k), task_started k, respond e (req_id (task_request k))),
       resolved := resolved r @ [req_id (task_request k)]\<rparr>"

text \<open>
  The strategy is suspended until the instant \<open>t\<close>: the tasks in flight that finish by then
  complete, in the order in which they finish.
\<close>

definition advance :: "env \<Rightarrow> time \<Rightarrow> run \<Rightarrow> run" where
  "advance e t r =
     (let due = filter (\<lambda>k. finish_time e k \<le> t) (running r);
          rest = filter (\<lambda>k. \<not> finish_time e k \<le> t) (running r);
          r1 = fold (complete e) (sort_key (finish_time e) due) r
      in r1\<lparr>running := rest, clock := t\<rparr>)"

definition start_tasks :: "request list \<Rightarrow> run \<Rightarrow> run" where
  "start_tasks qs r =
     r\<lparr>running := running r @ map (\<lambda>q. \<lparr>task_request = q, task_started = clock r\<rparr>) qs\<rparr>"

text \<open>\<open>await asyncio.sleep(d)\<close>; a delay of zero or less yields to the loop once.\<close>

definition sleep :: "env \<Rightarrow> time \<Rightarrow> run \<Rightarrow> run" where
  "sleep e d r =
     (let r1 = start_tasks (scheduled r) (r\<lparr>scheduled := []\<rparr>)
      in advance e (clock r1 + max 0 d) r1)"

text \<open>
  \<open>await asyncio.gather(*tasks, return_exceptions=True)\<close>: the coroutines are started and
  the strategy is suspended until the last of them has finished.
\<close>

definition gather :: "env \<Rightarrow> request list \<Rightarrow> run \<Rightarrow> run" where
  "gather e qs r =
     (let r1 = start_tasks (scheduled r @ qs) (r\<lparr>scheduled := []\<rparr>);
          gathered = map (\<lambda>q. \<lparr>task_request = q, task_started = clock r\<rparr>) qs;
          t_end = fold (\<lambda>k t. max t (finish_time e k)) gathered (clock r)
      in advance e t_end r1)"

text \<open>\<open>asyncio.create_task(coro)\<close>: the task is started at the next suspension.\<close>

definition create_task :: "request \<Rightarrow> run \<Rightarrow> run" where
  "create_task q r = r\<lparr>scheduled := scheduled r @ [q]\<rparr>"

text \<open>The call \<open>self.make_request(endpoint, method, json=data)\<close>: a new coroutine object.\<close>

definition new_request ::
  "string \<Rightarrow> string \<Rightarrow> (string \<times> json) list option \<Rightarrow> run \<Rightarrow> request \<times> run" where
  "new_request endpoint method data r =
     (\<lparr>req_id = issued r, req_endpoint = endpoint, req_method = method, req_json = data\<rparr>,
      r\<lparr>issued := issued r + 1\<rparr>)"

definition random_choice :: "env \<Rightarrow> 'a list \<Rightarrow> run \<Rightarrow> 'a \<times> run" where
  "random_choice e xs r = (xs ! (pick e (draws r) mod length xs), r\<lparr>draws := draws r + 1\<rparr>)"

text \<open>\<open>random.randint(a, b)\<close> raises \<open>ValueError\<close> on an empty range.\<close>

definition random_randint :: "env \<Rightarrow> int \<Rightarrow> int \<Rightarrow> run \<Rightarrow> error + int \<times> run" where
  "random_randint e a b r =
     (if b < a then Inl ValueError
      else Inr (a + int (pick e (draws r) mod nat (b - a + 1)), r\<lparr>draws := draws r + 1\<rparr>))"

text \<open>\<open>random.uniform(a, b)\<close> is \<open>a + (b - a) * random()\<close>, with 53 random bits.\<close>

definition random_uniform :: "env \<Rightarrow> rat \<Rightarrow> rat \<Rightarrow> run \<Rightarrow> rat \<times> run" where
  "random_uniform e a b r =
     (a + (b - a) * (of_int (int (pick e (draws r)) mod 2 ^ 53) / 2 ^ 53),
      r\<lparr>draws := draws r + 1\<rparr>)"

text \<open>The statements of one tick take their time on the wall clock.\<close>

definition spend :: "env \<Rightarrow> run \<Rightarrow> run" where
  "spend e r = r\<lparr>clock := clock r + overhead e (ticks r), ticks := ticks r + 1\<rparr>"

text \<open>A loop \<open>for _ in range(n)\<close> that appends one coroutine at each turn.\<close>

fun repeat_requests :: "(run \<Rightarrow> request \<times> run) \<Rightarrow> nat \<Rightarrow> run \<Rightarrow> request list \<times> run" where
  "repeat_requests body 0 r = ([], r)"
| "repeat_requests body (Suc n) r =
     (let (q, r1) = body r;
          (qs, r2) = repeat_requests body n r1
      in (q # qs, r2))"

text \<open>The last statement of every strategy: \<open>self.print_stats()\<close>.\<close>

definition report :: "run \<Rightarrow> error + run \<times> line list" where
  "report r = (case print_stats (gun_stats r) of Inl err \<Rightarrow> Inl err | Inr ls \<Rightarrow> Inr (r, ls))"

text \<open>
  An environment for the examples: the target answers every third request with status
  500 and the others with 200, within a few hundredths of a second, and a tick of a
  strategy takes one second of its own.
\<close>

definition busy_env :: env where
  "busy_env =
     \<lparr>respond = (\<lambda>k. if k mod 3 = 0 then Responds 500 (1 / 20) ''{}'' (1 / 100)
                       else Responds 200 (1 / 50) ''{}'' (1 / 100)),
      pick = (\<lambda>k. k + 1),
      fake_text = (\<lambda>k. ''lorem''),
      overhead = (\<lambda>k. 1)\<rparr>"

subsection \<open>DDoS\<close>

definition ddos_endpoints :: "string list" where
  "ddos_endpoints =
     [''/cpu-intensive'', ''/memory-intensive'', ''/database-heavy'', ''/slow-endpoint'',
      ''/error-prone'']"

definition ddos_request :: "env \<Rightarrow> run \<Rightarrow> request \<times> run" where
  "ddos_request e r =
     (let (endpoint, r1) = random_choice e ddos_endpoints r
      in new_request endpoint ''GET'' None r1)"

text \<open>
  The loop \<open>while time.time() < end_time\<close> of \<open>ddos_attack\<close>, with the list \<open>tasks\<close> it
  extends. The loops of the strategies take fuel, one unit for each tick: \<open>None\<close> says
  that the fuel ran out before the deadline.
\<close>

fun ddos_loop ::
  "nat \<Rightarrow> env \<Rightarrow> time \<Rightarrow> int \<Rightarrow> request list \<Rightarrow> run \<Rightarrow> (request list \<times> run) option" where
  "ddos_loop 0 e end_time rps tasks r =
     (if clock r < end_time then None else Some (tasks, r))"
| "ddos_loop (Suc fuel) e end_time rps tasks r =
     (if clock r < end_time then
        let (burst_tasks, r1) = repeat_requests (ddos_request e) (nat (rps div 10)) r;
            tasks1 = tasks @ burst_tasks;
            r2 = spend e r1;
            r3 = sleep e (1 / 10) r2
        in ddos_loop fuel e end_time rps tasks1 r3
      else Some (tasks, r))"

definition ddos_attack ::
  "nat \<Rightarrow> env \<Rightarrow> int \<Rightarrow> int \<Rightarrow> run \<Rightarrow> (error + run \<times> line list) option" where
  "ddos_attack fuel e duration rps r =
     (let end_time = clock r + of_int duration
      in case ddos_loop fuel e end_time rps [] r of
           None \<Rightarrow> None
         | Some (tasks, r1) \<Rightarrow> Some (report (gather e tasks r1)))"

subsection \<open>Burst\<close>

definition burst_endpoints :: "string list" where
  "burst_endpoints =
     [''/cpu-intensive?n=100000'', ''/memory-intensive?size_mb=50'',
      ''/database-heavy?queries=50'', ''/queue-task'']"

definition burst_request :: "env \<Rightarrow> run \<Rightarrow> request \<times> run" where
  "burst_request e r =
     (let (endpoint, r1) = random_choice e burst_endpoints r
      in if endpoint = ''/queue-task'' then
           let data = [(''task'', JStamped ''burst_task_'' \<lfloor>clock r1\<rfloor>),
                       (''data'', JStr (fake_text e (draws r1)))];
               r2 = r1\<lparr>draws := draws r1 + 1\<rparr>
           in new_request endpoint ''POST'' (Some data) r2
         else new_request endpoint ''GET'' None r1)"

fun burst_loop :: "nat \<Rightarrow> env \<Rightarrow> time \<Rightarrow> int \<Rightarrow> int \<Rightarrow> run \<Rightarrow> run option" where
  "burst_loop 0 e end_time burst_size interval r =
     (if clock r < end_time then None else Some r)"
| "burst_loop (Suc fuel) e end_time burst_size interval r =
     (if clock r < end_time then
        let (tasks, r1) = repeat_requests (burst_request e) (nat burst_size) r;
            r2 = spend e r1;
            r3 = gather e tasks r2;
            r4 = sleep e (of_int interval) r3
        in burst_loop fuel e end_time burst_size interval r4
      else Some r)"

definition burst_attack ::
  "nat \<Rightarrow> env \<Rightarrow> int \<Rightarrow> int \<Rightarrow> int \<Rightarrow> run \<Rightarrow> (error + run \<times> line list) option" where
  "burst_attack fuel e burst_size interval duration r =
     (let end_time = clock r + of_int duration
      in case burst_loop fuel e end_time burst_size interval r of
           None \<Rightarrow> None
         | Some r1 \<Rightarrow> Some (report r1))"

subsection \<open>Sustained\<close>

definition sustained_endpoints :: "string list" where
  "sustained_endpoints =
     [''/cpu-intensive?n=500000'', ''/memory-intensive?size_mb=25'',
      ''/database-heavy?queries=25'', ''/slow-endpoint?delay=1.0'']"

fun sustained_loop :: "nat \<Rightarrow> env \<Rightarrow> time \<Rightarrow> rat \<Rightarrow> run \<Rightarrow> run option" where
  "sustained_loop 0 e end_time interval r =
     (if clock r < end_time then None else Some r)"
| "sustained_loop (Suc fuel) e end_time interval r =
     (if clock r < end_time then
        let start = clock r;
            (endpoint, r1) = random_choice e sustained_endpoints r;
            (q, r2) = new_request endpoint ''GET'' None r1;
            r3 = create_task q r2;
            r4 = spend e r3;
            elapsed = clock r4 - start;
            sleep_time = max 0 (interval - elapsed);
            r5 = sleep e sleep_time r4
        in sustained_loop fuel e end_time interval r5
      else Some r)"

text \<open>\<open>interval = 1.0 / rps\<close> is computed before the loop, with no check of \<open>rps\<close>.\<close>

definition sustained_attack ::
  "nat \<Rightarrow> env \<Rightarrow> int \<Rightarrow> int \<Rightarrow> run \<Rightarrow> (error + run \<times> line list) option" where
  "sustained_attack fuel e rps duration r =
     (let end_time = clock r + of_int duration
      in if rps = 0 then Some (Inl ZeroDivisionError)
         else
           let interval = 1 / of_int rps
           in case sustained_loop fuel e end_time interval r of
                None \<Rightarrow> None
              | Some r1 \<Rightarrow> Some (report r1))"

subsection \<open>Random\<close>

definition random_endpoints :: "string list" where
  "random_endpoints =
     [''/cpu-intensive'', ''/memory-intensive'', ''/database-heavy'', ''/slow-endpoint'',
      ''/error-prone'', ''/queue-task'', ''/metrics'']"

definition random_request :: "env \<Rightarrow> run \<Rightarrow> request \<times> run" where
  "random_request e r =
     (let (endpoint, r1) = random_choice e random_endpoints r
      in if endpoint = ''/queue-task'' then
           let data = [(''task'', JStamped ''random_task_'' \<lfloor>clock r1\<rfloor>)]
           in new_request endpoint ''POST'' (Some data) r1
         else new_request endpoint ''GET'' None r1)"

fun random_loop :: "nat \<Rightarrow> env \<Rightarrow> time \<Rightarrow> int \<Rightarrow> run \<Rightarrow> (error + run) option" where
  "random_loop 0 e end_time max_rps r =
     (if clock r < end_time then None else Some (Inr r))"
| "random_loop (Suc fuel) e end_time max_rps r =
     (if clock r < end_time then
        case random_randint e 0 max_rps r of
          Inl err \<Rightarrow> Some (Inl err)
        | Inr (current_rps, r1) \<Rightarrow>
            let r2 = spend e r1;
                r3 = (if current_rps > 0 then
                        let (tasks, r') = repeat_requests (random_request e) (nat current_rps) r2
                        in gather e tasks r'
                      else r2);
                (pause, r4) = random_uniform e (1 / 10) 2 r3;
                r5 = sleep e pause r4
            in random_loop fuel e end_time max_rps r5
      else Some (Inr r))"

definition random_attack ::
  "nat \<Rightarrow> env \<Rightarrow> int \<Rightarrow> int \<Rightarrow> run \<Rightarrow> (error + run \<times> line list) option" where
  "random_attack fuel e max_rps duration r =
     (let end_time = clock r + of_int duration
      in case random_loop fuel e end_time max_rps r of
           None \<Rightarrow> None
         | Some (Inl err) \<Rightarrow> Some (Inl err)
         | Some (Inr r1) \<Rightarrow> Some (report r1))"

subsection \<open>Database\<close>

definition database_heavy_request :: "run \<Rightarrow> request \<times> run" where
  "database_heavy_request r = new_request ''/database-heavy?queries=100'' ''GET'' None r"

definition database_queue_request :: "run \<Rightarrow> request \<times> run" where
  "database_queue_request r =
     (let data = [(''task'', JStamped ''db_task_'' \<lfloor>clock r\<rfloor>), (''queries'', JInt 50)]
      in new_request ''/queue-task'' ''POST'' (Some data) r)"

fun database_loop :: "nat \<Rightarrow> env \<Rightarrow> time \<Rightarrow> run \<Rightarrow> run option" where
  "database_loop 0 e end_time r =
     (if clock r < end_time then None else Some r)"
| "database_loop (Suc fuel) e end_time r =
     (if clock r < end_time then
        let (heavy, r1) = repeat_requests database_heavy_request 50 r;
            (queue, r2) = repeat_requests database_queue_request 20 r1;
            tasks = heavy @ queue;
            r3 = spend e r2;
            r4 = gather e tasks r3;
            r5 = sleep e (1 / 2) r4
        in database_loop fuel e end_time r5
      else Some r)"

definition database_attack ::
  "nat \<Rightarrow> env \<Rightarrow> int \<Rightarrow> run \<Rightarrow> (error + run \<times> line list) option" where
  "database_attack fuel e duration r =
     (let end_time = clock r + of_int duration
      in case database_loop fuel e end_time r of
           None \<Rightarrow> None
         | Some r1 \<Rightarrow> Some (report r1))"

section \<open>Properties\<close>

lemma total_make_requests:
  "total_requests (make_requests st cs) = successful_requests (make_requests st cs) +
     failed_requests (make_requests st cs) + (total_requests st - successful_requests st - failed_requests st)"
proof (induction cs arbitrary: st)
  case Nil
  then show ?case by simp
next
  case (Cons c cs)
  obtain endpoint start_time b where c: "c = (endpoint, start_time, b)"
    by (cases c) auto
  have "total_requests (record_call st c) - successful_requests (record_call st c) -
          failed_requests (record_call st c) =
        total_requests st - successful_requests st - failed_requests st"
    by (cases b) (auto simp: c make_request_def handle_exception_def Let_def)
  with Cons.IH [of "record_call st c"] show ?case by simp
qed

subsection \<open>Counting over a sequence of calls\<close>

lemma record_call_total:
  "total_requests (record_call st c) =
     total_requests st + (if got_response c \<or> transport_failure c then 1 else 0)"
proof -
  obtain endpoint start_time b where c: "c = (endpoint, start_time, b)"
    by (cases c) auto
  show ?thesis
    by (cases b) (auto simp: c make_request_def handle_exception_def Let_def)
qed

lemma record_call_length_times:
  "length (response_times (record_call st c)) =
     length (response_times st) + (if got_response c then 1 else 0)"
proof -
  obtain endpoint start_time b where c: "c = (endpoint, start_time, b)"
    by (cases c) auto
  show ?thesis
    by (cases b) (auto simp: c make_request_def handle_exception_def Let_def)
qed

lemma record_call_failure:
  "transport_failure c \<Longrightarrow>
     response_times (record_call st c) = response_times st \<and>
     failed_requests (record_call st c) = failed_requests st + 1 \<and>
     successful_requests (record_call st c) = successful_requests st \<and>
     length (errors (record_call st c)) = length (errors st) + 1"
proof -
  assume tf: "transport_failure c"
  obtain endpoint start_time b where c: "c = (endpoint, start_time, b)"
    by (cases c) auto
  from tf show ?thesis
    by (cases b) (auto simp: c make_request_def handle_exception_def Let_def)
qed

lemma length_times_make_requests:
  "length (response_times (make_requests st cs)) =
     length (response_times st) + length (filter got_response cs)"
  by (induction cs arbitrary: st) (simp_all add: record_call_length_times)

lemma count_make_requests:
  "total_requests (make_requests st cs) =
     total_requests st + int (length (filter got_response cs)) +
     int (length (filter transport_failure cs))"
proof (induction cs arbitrary: st)
  case Nil
  then show ?case by simp
next
  case (Cons c cs)
  have "\<not> (got_response c \<and> transport_failure c)"
    by (cases c rule: got_response.cases) auto
  then show ?case
    using Cons.IH [of "record_call st c"] by (auto simp: record_call_total)
qed

lemma failures_make_requests:
  "list_all transport_failure cs \<Longrightarrow>
     response_times (make_requests st cs) = response_times st \<and>
     failed_requests (make_requests st cs) = failed_requests st + int (length cs) \<and>
     successful_requests (make_requests st cs) = successful_requests st \<and>
     length (errors (make_requests st cs)) = length (errors st) + length cs"
proof (induction cs arbitrary: st)
  case Nil
  then show ?case by simp
next
  case (Cons c cs)
  then have c: "transport_failure c" and cs: "list_all transport_failure cs"
    by simp_all
  show ?case
    using Cons.IH [OF cs, of "record_call st c"] record_call_failure [OF c, of st]
    by simp
qed

lemma record_call_outcome:
  "successful_requests (record_call st c) =
     successful_requests st + (if http_success c then 1 else 0) \<and>
   failed_requests (record_call st c) =
     failed_requests st + (if transport_failure c \<or> http_error c then 1 else 0) \<and>
   response_times (record_call st c) =
     response_times st @ (if got_response c then [time_to_head c] else []) \<and>
   length (errors (record_call st c)) =
     length (errors st) + (if transport_failure c \<or> http_error c then 1 else 0)"
proof -
  obtain endpoint start_time b where c: "c = (endpoint, start_time, b)"
    by (cases c) auto
  show ?thesis
    by (cases b) (auto simp: c make_request_def handle_exception_def Let_def)
qed

lemma outcomes_make_requests:
  "successful_requests (make_requests st cs) =
     successful_requests st + int (length (filter http_success cs)) \<and>
   failed_requests (make_requests st cs) =
     failed_requests st + int (length (filter transport_failure cs)) +
     int (length (filter http_error cs)) \<and>
   response_times (make_requests st cs) =
     response_times st @ map time_to_head (filter got_response cs) \<and>
   length (errors (make_requests st cs)) =
     length (errors st) + length (filter transport_failure cs) + length (filter http_error cs)"
proof (induction cs arbitrary: st)
  case Nil
  then show ?case by simp
next
  case (Cons c cs)
  have x: "\<not> (transport_failure c \<and> http_error c)"
    by (cases c rule: got_response.cases) auto
  show ?case
    using Cons.IH [of "record_call st c"] x
    by (auto simp: record_call_outcome)
qed

subsection \<open>The statistics of a non-empty sample\<close>

lemma sum_list_lower:
  fixes m :: rat
  shows "(\<And>x. x \<in> set xs \<Longrightarrow> m \<le> x) \<Longrightarrow> of_nat (length xs) * m \<le> sum_list xs"
proof (induction xs)
  case Nil
  then show ?case by simp
next
  case (Cons a xs)
  have "m \<le> a" using Cons.prems by simp
  moreover have "of_nat (length xs) * m \<le> sum_list xs"
    using Cons.IH Cons.prems by simp
  ultimately show ?case by (simp add: algebra_simps)
qed

lemma sum_list_upper:
  fixes m :: rat
  shows "(\<And>x. x \<in> set xs \<Longrightarrow> x \<le> m) \<Longrightarrow> sum_list xs \<le> of_nat (length xs) * m"
proof (induction xs)
  case Nil
  then show ?case by simp
next
  case (Cons a xs)
  have "a \<le> m" using Cons.prems by simp
  moreover have "sum_list xs \<le> of_nat (length xs) * m"
    using Cons.IH Cons.prems by simp
  ultimately show ?case by (simp add: algebra_simps)
qed

lemma np_min_le_mean:
  assumes "xs \<noteq> []"
  shows "np_min xs \<le> np_mean xs"
proof -
  have n: "0 < (of_nat (length xs) :: rat)" using assms by simp
  have "of_nat (length xs) * Min (set xs) \<le> sum_list xs"
    by (rule sum_list_lower) simp
  then show ?thesis
    using n by (simp add: np_min_def np_mean_def pos_le_divide_eq mult.commute)
qed

lemma np_mean_le_max:
  assumes "xs \<noteq> []"
  shows "np_mean xs \<le> np_max xs"
proof -
  have n: "0 < (of_nat (length xs) :: rat)" using assms by simp
  have "sum_list xs \<le> of_nat (length xs) * Max (set xs)"
    by (rule sum_list_upper) simp
  then show ?thesis
    using n by (simp add: np_max_def np_mean_def pos_divide_le_eq mult.commute)
qed

lemma np_percentile_bounds:
  assumes ne: "xs \<noteq> []" and q0: "0 \<le> q" and q1: "q \<le> 100"
  shows "np_min xs \<le> np_percentile xs q \<and> np_percentile xs q \<le> np_max xs"
proof -
  define s where "s = sort xs"
  define n where "n = length xs"
  define rank :: rat where "rank = of_nat (n - 1) * (q / 100)"
  define lo where "lo = nat \<lfloor>rank\<rfloor>"
  define hi where "hi = min (lo + 1) (n - 1)"
  define gamma where "gamma = rank - of_int \<lfloor>rank\<rfloor>"
  have p: "np_percentile xs q = s ! lo + gamma * (s ! hi - s ! lo)"
    by (simp add: np_percentile_def Let_def s_def n_def rank_def lo_def hi_def gamma_def)
  have npos: "0 < n" using ne by (simp add: n_def)
  have r0: "0 \<le> rank" using q0 by (simp add: rank_def)
  have r1: "rank \<le> of_nat (n - 1)"
  proof -
    have "q / 100 \<le> 1" using q1 by simp
    then have "of_nat (n - 1) * (q / 100) \<le> of_nat (n - 1) * (1::rat)"
      by (intro mult_left_mono) simp_all
    then show ?thesis by (simp add: rank_def)
  qed
  have "\<lfloor>rank\<rfloor> \<le> int (n - 1)"
    using r1 by (simp add: floor_le_iff)
  moreover have "0 \<le> \<lfloor>rank\<rfloor>" using r0 by simp
  ultimately have lo_le: "lo \<le> n - 1" by (simp add: lo_def)
  have hi_le: "hi \<le> n - 1" by (simp add: hi_def)
  have lo_hi: "lo \<le> hi" using lo_le by (simp add: hi_def)
  have len: "length s = n" by (simp add: s_def n_def)
  have lo_lt: "lo < length s" and hi_lt: "hi < length s"
    using lo_le hi_le npos len by simp_all
  have srt: "sorted s" by (simp add: s_def)
  have mono: "s ! lo \<le> s ! hi"
    using srt lo_hi hi_lt by (rule sorted_nth_mono)
  have g0: "0 \<le> gamma" and g1: "gamma \<le> 1"
    unfolding gamma_def by linarith+
  have set_s: "set s = set xs" by (simp add: s_def)
  have lower: "s ! lo \<le> s ! lo + gamma * (s ! hi - s ! lo)"
    using g0 mono by simp
  have "gamma * (s ! hi - s ! lo) \<le> 1 * (s ! hi - s ! lo)"
    using g1 mono by (intro mult_right_mono) simp_all
  then have upper: "s ! lo + gamma * (s ! hi - s ! lo) \<le> s ! hi" by simp
  have "s ! lo \<in> set xs" using lo_lt set_s nth_mem by blast
  then have a: "Min (set xs) \<le> s ! lo" by simp
  have "s ! hi \<in> set xs" using hi_lt set_s nth_mem by blast
  then have b: "s ! hi \<le> Max (set xs)" by simp
  from a b lower upper show ?thesis
    by (simp add: p np_min_def np_max_def)
qed

subsection \<open>The counters and the latency list\<close>

text \<open>
  Claim C1, as the code has it. After every sequence of calls on fresh statistics the
  total is the sum of the successful and the failed requests. The successful count is the
  number of responses with a status below 400; the failed count is the number of caught
  transport failures plus the number of responses with a status of 400 or more, and one
  error is kept for each of them. The latency list holds, in order, the time to the
  response head of each call that ended in an HTTP response (of any status) and nothing
  for a call that ended in a caught exception, so the total is the length of the latency
  list plus the number of transport failures.
\<close>

theorem stats_invariant_after_calls:
  "total_requests (make_requests init_stats cs) =
     successful_requests (make_requests init_stats cs) +
     failed_requests (make_requests init_stats cs) \<and>
   length (response_times (make_requests init_stats cs)) = length (filter got_response cs) \<and>
   total_requests (make_requests init_stats cs) =
     int (length (response_times (make_requests init_stats cs))) +
     int (length (filter transport_failure cs)) \<and>
   successful_requests (make_requests init_stats cs) = int (length (filter http_success cs)) \<and>
   failed_requests (make_requests init_stats cs) =
     int (length (filter transport_failure cs)) + int (length (filter http_error cs)) \<and>
   response_times (make_requests init_stats cs) = map time_to_head (filter got_response cs) \<and>
   length (errors (make_requests init_stats cs)) =
     length (filter transport_failure cs) + length (filter http_error cs)"
  using total_make_requests [of init_stats cs]
    length_times_make_requests [of init_stats cs]
    count_make_requests [of init_stats cs]
    outcomes_make_requests [of init_stats cs]
  by (simp add: init_stats_def)

text \<open>
  Claim C1 as stated fails: after one call that ends in a refused connection the total
  is 1 and the latency list is empty.
\<close>

theorem latencies_shorter_than_total_counterexample:
  "int (length (response_times (make_requests init_stats
      [(''/error-prone'', 0, RequestRaises ExceptionSubclass ''Connection refused'' 1)]))) \<noteq>
   total_requests (make_requests init_stats
      [(''/error-prone'', 0, RequestRaises ExceptionSubclass ''Connection refused'' 1)])"
  by (simp add: make_request_def handle_exception_def init_stats_def)

text \<open>
  Claim C7, as the code has it. The latency list is a plain list: it grows by exactly one
  entry for each call that ended in an HTTP response, and nothing ever shortens it.
\<close>

theorem response_times_grow:
  "length (response_times (make_requests st cs)) =
     length (response_times st) + length (filter got_response cs)"
  by (rule length_times_make_requests)

text \<open>
  Claim C7 as stated fails: no bound holds for the length of the latency list over all
  runs.
\<close>

theorem response_times_unbounded_counterexample:
  "\<not> (\<exists>bound. \<forall>cs. length (response_times (make_requests init_stats cs)) \<le> bound)"
proof
  assume "\<exists>bound. \<forall>cs. length (response_times (make_requests init_stats cs)) \<le> bound"
  then obtain bound where
    b: "\<forall>cs. length (response_times (make_requests init_stats cs)) \<le> bound"
    by blast
  let ?cs = "replicate (Suc bound) (''/metrics'', 0::rat, Responds 200 1 ''ok'' 0)"
  have "filter got_response ?cs = ?cs"
    by (simp del: replicate_Suc)
  then have "length (response_times (make_requests init_stats ?cs)) = Suc bound"
    unfolding length_times_make_requests by (simp add: init_stats_def del: replicate_Suc)
  with b show False
    by (metis Suc_n_not_le_n)
qed

subsection \<open>One request\<close>

text \<open>
  Claim C4. A failure of the transport, raised by the request itself or while the body
  is read, is caught: \<open>make_request\<close> returns a dictionary with an error description and
  no status code, and no exception reaches the caller. A response of any status is
  returned with its status.
\<close>

theorem make_request_captures_failures:
  "(case make_request st endpoint t (RequestRaises ExceptionSubclass msg d_fail) of
      Inr (st', r) \<Rightarrow> reply_status r = None \<and> reply_error r = Some msg
    | Inl e \<Rightarrow> False) \<and>
   (case make_request st endpoint t (BodyRaises status d_head ExceptionSubclass msg d_fail) of
      Inr (st', r) \<Rightarrow> reply_status r = None \<and> reply_error r = Some msg
    | Inl e \<Rightarrow> False) \<and>
   (case make_request st endpoint t (Responds status d_head content d_body) of
      Inr (st', r) \<Rightarrow> reply_status r = Some status
    | Inl e \<Rightarrow> False)"
  by (simp add: make_request_def handle_exception_def Let_def)

text \<open>
  Claim C8, as the code has it. The elapsed time of a request that got a response is the
  time from the send to the arrival of the response head; it is what the reply carries
  and what is appended to the latency list, whatever the time the body takes.
\<close>

theorem elapsed_is_time_to_head:
  "\<exists>st'. make_request st endpoint t (Responds status d_head content d_body) =
           Inr (st', StatusReply status d_head content) \<and>
         response_times st' = response_times st @ [d_head]"
  by (simp add: make_request_def Let_def)

text \<open>
  Claim C8 as stated fails: a request sent at instant 10 whose head arrives after 1 second
  and whose body takes 2 seconds more has its body in full at instant 13, and its
  elapsed time is 1 second.
\<close>

theorem elapsed_excludes_body_counterexample:
  "(case make_request init_stats ''/slow-endpoint'' 10 (Responds 200 1 ''{}'' 2) of
      Inr (st', r) \<Rightarrow> Some (10 + reply_time r)
    | Inl e \<Rightarrow> None) \<noteq>
   body_received 10 (Responds 200 1 ''{}'' 2)"
  by (simp add: make_request_def Let_def)

subsection \<open>The report\<close>

text \<open>
  Claim C5, as the code has it. With no outcome recorded \<open>print_stats\<close> prints the one
  line "No requests completed" and returns; it does not raise.
\<close>

theorem print_stats_no_outcomes:
  "print_stats init_stats = Inr [NoRequestsCompleted]"
  by (simp add: print_stats_def init_stats_def)

text \<open>
  Claim C5 as stated fails: the report on no outcome shows no success rate at all, so the
  rate it shows is not 0.
\<close>

theorem no_success_rate_counterexample:
  "(case print_stats init_stats of Inr ls \<Rightarrow> reported_success_rate ls | Inl e \<Rightarrow> None) \<noteq> Some 0"
  by (simp add: print_stats_def init_stats_def)

text \<open>
  Claim C6, as the statistics are. In every report that shows them, the mean and the 95th
  percentile both lie between the minimum and the maximum.
\<close>

theorem report_statistics_ordered:
  "print_stats st = Inr ls \<Longrightarrow>
   AverageResponseTime avg \<in> set ls \<Longrightarrow> MinResponseTime lo \<in> set ls \<Longrightarrow>
   MaxResponseTime hi \<in> set ls \<Longrightarrow> Percentile95 p95 \<in> set ls \<Longrightarrow>
     lo \<le> avg \<and> avg \<le> hi \<and> lo \<le> p95 \<and> p95 \<le> hi"
proof -
  assume r: "print_stats st = Inr ls"
    and a: "AverageResponseTime avg \<in> set ls" and l: "MinResponseTime lo \<in> set ls"
    and h: "MaxResponseTime hi \<in> set ls" and p: "Percentile95 p95 \<in> set ls"
  have ne: "response_times st \<noteq> []"
    using r a by (auto simp: print_stats_def split: if_splits)
  have v: "avg = np_mean (response_times st)" "lo = np_min (response_times st)"
    "hi = np_max (response_times st)" "p95 = np_percentile (response_times st) 95"
    using r a l h p by (auto simp: print_stats_def Let_def split: if_splits)
  show ?thesis
    using np_min_le_mean [OF ne] np_mean_le_max [OF ne]
      np_percentile_bounds [OF ne, of 95] by (simp add: v)
qed

theorem report_statistics_ordered_witness:
  "print_stats (make_requests init_stats
      [(''/cpu-intensive'', 0, Responds 200 1 ''ok'' 0),
       (''/error-prone'', 0, Responds 500 3 ''boom'' 1)]) =
     Inr [Rule, Title, Rule, TotalRequests 2, Successful 1 50, Failed 1,
          AverageResponseTime 2, MinResponseTime 1, MaxResponseTime 3,
          Percentile95 (29 / 10),
          RecentErrors 1, ErrorLine (StatusEntry 500 ''/error-prone'' 4)] \<and>
   (1::rat) \<le> 2 \<and> (2::rat) \<le> 3 \<and> (1::rat) \<le> 29 / 10 \<and> (29 / 10 :: rat) \<le> 3"
proof -
  have r: "print_stats (make_requests init_stats
      [(''/cpu-intensive'', 0, Responds 200 1 ''ok'' 0),
       (''/error-prone'', 0, Responds 500 3 ''boom'' 1)]) =
     Inr [Rule, Title, Rule, TotalRequests 2, Successful 1 50, Failed 1,
          AverageResponseTime 2, MinResponseTime 1, MaxResponseTime 3,
          Percentile95 (29 / 10),
          RecentErrors 1, ErrorLine (StatusEntry 500 ''/error-prone'' 4)]"
    by code_simp
  from report_statistics_ordered [OF r, of 2 1 3 "29 / 10"] r show ?thesis
    by simp
qed

text \<open>
  Claim C6 as stated fails: of twenty responses after 1 second and one after 100 seconds
  the 95th percentile is 1 second and the mean is above it.
\<close>

theorem p95_below_mean_counterexample:
  "np_percentile (response_times (make_requests init_stats
      (replicate 20 (''/metrics'', 0, Responds 200 1 ''ok'' 0) @
       [(''/slow-endpoint'', 0, Responds 200 100 ''ok'' 0)]))) 95 <
   np_mean (response_times (make_requests init_stats
      (replicate 20 (''/metrics'', 0, Responds 200 1 ''ok'' 0) @
       [(''/slow-endpoint'', 0, Responds 200 100 ''ok'' 0)])))"
  by (simp add: make_request_def init_stats_def np_percentile_def np_mean_def
      numeral_eq_Suc nth_append Let_def)

text \<open>
  Claim C10. When every call of a non-empty run ends in a transport failure, the total
  and the failed count are the number of calls and one error is kept for each, the latency
  list is empty, and the report is the one line "No requests completed": it shows no
  count and no error.
\<close>

theorem all_failed_report_is_silent:
  "cs \<noteq> [] \<Longrightarrow> list_all transport_failure cs \<Longrightarrow>
     0 < total_requests (make_requests init_stats cs) \<and>
     total_requests (make_requests init_stats cs) = int (length cs) \<and>
     failed_requests (make_requests init_stats cs) = int (length cs) \<and>
     length (errors (make_requests init_stats cs)) = length cs \<and>
     response_times (make_requests init_stats cs) = [] \<and>
     print_stats (make_requests init_stats cs) = Inr [NoRequestsCompleted]"
proof -
  assume ne: "cs \<noteq> []" and tf: "list_all transport_failure cs"
  have f: "filter transport_failure cs = cs"
    using tf by (simp add: list_all_iff)
  have g: "filter got_response cs = []"
  proof -
    have "\<And>c. transport_failure c \<Longrightarrow> \<not> got_response c"
      subgoal for c by (cases c rule: got_response.cases) auto
      done
    with tf show ?thesis by (auto simp: list_all_iff filter_empty_conv)
  qed
  have t: "total_requests (make_requests init_stats cs) = int (length cs)"
    using count_make_requests [of init_stats cs] by (simp add: f g init_stats_def)
  have r: "response_times (make_requests init_stats cs) = []"
    using failures_make_requests [OF tf, of init_stats] by (simp add: init_stats_def)
  from ne t r failures_make_requests [OF tf, of init_stats] show ?thesis
    by (simp add: print_stats_def init_stats_def)
qed

theorem all_failed_report_is_silent_witness:
  "[(''/cpu-intensive'', 0::rat, RequestRaises ExceptionSubclass ''Connection refused'' (1/100)),
    (''/queue-task'', 1, BodyRaises 200 (1/2) ExceptionSubclass ''Timeout'' 30)] \<noteq> [] \<and>
   list_all transport_failure
     [(''/cpu-intensive'', 0, RequestRaises ExceptionSubclass ''Connection refused'' (1/100)),
      (''/queue-task'', 1, BodyRaises 200 (1/2) ExceptionSubclass ''Timeout'' 30)] \<and>
   total_requests (make_requests init_stats
     [(''/cpu-intensive'', 0, RequestRaises ExceptionSubclass ''Connection refused'' (1/100)),
      (''/queue-task'', 1, BodyRaises 200 (1/2) ExceptionSubclass ''Timeout'' 30)]) = 2 \<and>
   print_stats (make_requests init_stats
     [(''/cpu-intensive'', 0, RequestRaises ExceptionSubclass ''Connection refused'' (1/100)),
      (''/queue-task'', 1, BodyRaises 200 (1/2) ExceptionSubclass ''Timeout'' 30)]) =
     Inr [NoRequestsCompleted]"
  using all_failed_report_is_silent
    [of "[(''/cpu-intensive'', 0, RequestRaises ExceptionSubclass ''Connection refused'' (1/100)),
          (''/queue-task'', 1, BodyRaises 200 (1/2) ExceptionSubclass ''Timeout'' 30)]"]
  by simp

subsection \<open>A strategy with nothing in flight\<close>

lemma sleep_idle:
  "scheduled r = [] \<Longrightarrow> running r = [] \<Longrightarrow> sleep e d r = r\<lparr>clock := clock r + max 0 d\<rparr>"
  by (simp add: sleep_def start_tasks_def advance_def)

lemma gather_nothing_idle:
  "scheduled r = [] \<Longrightarrow> running r = [] \<Longrightarrow> gather e [] r = r"
  by (simp add: gather_def start_tasks_def advance_def)

lemma ddos_loop_idle:
  "rps < 10 \<Longrightarrow> \<forall>k. 0 \<le> overhead e k \<Longrightarrow> scheduled r = [] \<Longrightarrow> running r = [] \<Longrightarrow>
   nat \<lceil>10 * (end_time - clock r)\<rceil> \<le> fuel \<Longrightarrow>
     \<exists>r'. ddos_loop fuel e end_time rps [] r = Some ([], r') \<and>
          issued r' = issued r \<and> gun_stats r' = gun_stats r \<and> resolved r' = resolved r \<and>
          scheduled r' = [] \<and> running r' = []"
proof (induction fuel arbitrary: r)
  case 0
  then have "\<lceil>10 * (end_time - clock r)\<rceil> \<le> 0" by simp
  then have "10 * (end_time - clock r) \<le> 0" by (simp add: ceiling_le_iff)
  then have "\<not> clock r < end_time" by simp
  then show ?case using "0.prems" by simp
next
  case (Suc fuel)
  show ?case
  proof (cases "clock r < end_time")
    case False
    then show ?thesis using Suc.prems by simp
  next
    case True
    define r3 where "r3 = sleep e (1 / 10) (spend e r)"
    have sp: "scheduled (spend e r) = []" "running (spend e r) = []"
      using Suc.prems by (simp_all add: spend_def)
    have r3: "r3 = (spend e r)\<lparr>clock := clock (spend e r) + 1 / 10\<rparr>"
      unfolding r3_def using sleep_idle [OF sp, of e "1 / 10"] by simp
    have o: "0 \<le> overhead e (ticks r)" using Suc.prems by simp
    have c: "clock r3 = clock r + overhead e (ticks r) + 1 / 10"
      by (simp add: r3 spend_def)
    have f: "issued r3 = issued r" "gun_stats r3 = gun_stats r" "resolved r3 = resolved r"
      "scheduled r3 = []" "running r3 = []"
      using Suc.prems by (simp_all add: r3 spend_def)
    have "10 * (end_time - clock r3) \<le> 10 * (end_time - clock r) - 1"
      using o by (simp add: c)
    then have "\<lceil>10 * (end_time - clock r3)\<rceil> \<le> \<lceil>10 * (end_time - clock r) - 1\<rceil>"
      by (rule ceiling_mono)
    also have "\<dots> = \<lceil>10 * (end_time - clock r)\<rceil> - 1" by simp
    finally have "nat \<lceil>10 * (end_time - clock r3)\<rceil> \<le> fuel"
      using Suc.prems(5) by linarith
    from Suc.IH [OF Suc.prems(1) Suc.prems(2) f(4) f(5) this]
    obtain r' where "ddos_loop fuel e end_time rps [] r3 = Some ([], r')"
        "issued r' = issued r3" "gun_stats r' = gun_stats r3" "resolved r' = resolved r3"
        "scheduled r' = []" "running r' = []"
      by blast
    then show ?thesis
      using True Suc.prems(1) f unfolding r3_def by simp
  qed
qed

subsection \<open>Degenerate rates\<close>

text \<open>
  Claim C9. With \<open>rps < 10\<close> the burst of a DDoS tick is \<open>rps // 10 = 0\<close> requests
  long. The clock advances by at least a tenth of a second at each tick, so with one unit
  of fuel for each tenth of a second of the duration the run returns: it has created no
  request at all, its statistics are untouched, and its report is "No requests
  completed".
\<close>

theorem ddos_small_rps_issues_nothing:
  "rps < 10 \<Longrightarrow> \<forall>k. 0 \<le> overhead e k \<Longrightarrow> nat (10 * duration) \<le> fuel \<Longrightarrow>
     fst (repeat_requests (ddos_request e) (nat (rps div 10)) r0) = [] \<and>
     (\<exists>r. ddos_attack fuel e duration rps (start_run t0) =
            Some (Inr (r, [NoRequestsCompleted])) \<and>
          issued r = 0 \<and> resolved r = [] \<and> gun_stats r = init_stats)"
proof -
  assume rps: "rps < 10" and o: "\<forall>k. 0 \<le> overhead e k" and fuel: "nat (10 * duration) \<le> fuel"
  have b: "fst (repeat_requests (ddos_request e) (nat (rps div 10)) r0) = []"
    using rps by simp
  have s: "scheduled (start_run t0) = []" "running (start_run t0) = []"
    by (simp_all add: start_run_def)
  have "\<lceil>10 * (of_int duration :: rat)\<rceil> = 10 * duration"
  proof -
    have "10 * (of_int duration :: rat) = of_int (10 * duration)" by simp
    then show ?thesis by (simp only: ceiling_of_int)
  qed
  then have "nat \<lceil>10 * (clock (start_run t0) + of_int duration - clock (start_run t0))\<rceil> \<le> fuel"
    using fuel by simp
  from ddos_loop_idle [OF rps o s this]
  obtain r' where l: "ddos_loop fuel e (clock (start_run t0) + of_int duration) rps [] (start_run t0) =
        Some ([], r')"
    and f: "issued r' = issued (start_run t0)" "gun_stats r' = gun_stats (start_run t0)"
      "resolved r' = resolved (start_run t0)" "scheduled r' = []" "running r' = []"
    by blast
  have g: "gather e [] r' = r'"
    using f by (simp add: gather_nothing_idle)
  have "ddos_attack fuel e duration rps (start_run t0) = Some (Inr (r', [NoRequestsCompleted]))"
    using l f by (simp add: ddos_attack_def g report_def print_stats_def start_run_def init_stats_def)
  with f b show ?thesis
    by (simp add: start_run_def)
qed

theorem ddos_small_rps_issues_nothing_witness:
  "(9::int) < 10 \<and> nat (10 * 2) \<le> (20::nat) \<and>
   (\<exists>r. ddos_attack 20
           \<lparr>respond = (\<lambda>k. Responds 200 (1 / 100) ''{}'' 0), pick = (\<lambda>k. k),
            fake_text = (\<lambda>k. ''''), overhead = (\<lambda>k. 1 / 1000)\<rparr>
           2 9 (start_run 0) = Some (Inr (r, [NoRequestsCompleted])) \<and> issued r = 0)"
  using ddos_small_rps_issues_nothing
    [of 9 "\<lparr>respond = (\<lambda>k. Responds 200 (1 / 100) ''{}'' 0), pick = (\<lambda>k. k),
            fake_text = (\<lambda>k. ''''), overhead = (\<lambda>k. 1 / 1000)\<rparr>" 2 20 "start_run 0" 0]
  by auto

text \<open>
  Claim C3 at \<open>rps = 0\<close>: \<open>sustained_attack\<close> raises \<open>ZeroDivisionError\<close> at
  \<open>interval = 1.0 / rps\<close>, before its loop, whatever the duration.
\<close>

theorem sustained_zero_rps_raises:
  "sustained_attack fuel e 0 duration r = Some (Inl ZeroDivisionError)"
  by (simp add: sustained_attack_def)

subsection \<open>Requests in flight\<close>

lemma unresolved_empty_iff:
  "unresolved r = [] \<longleftrightarrow> (\<forall>k < issued r. k \<in> set (resolved r))"
  by (auto simp: unresolved_def filter_empty_conv)

lemma fold_complete_resolved:
  "resolved (fold (complete e) ks r) = resolved r @ map (\<lambda>k. req_id (task_request k)) ks"
  by (induction ks arbitrary: r) (simp_all add: complete_def)

lemma fold_complete_frame:
  "issued (fold (complete e) ks r) = issued r \<and>
   scheduled (fold (complete e) ks r) = scheduled r \<and>
   running (fold (complete e) ks r) = running r \<and>
   clock (fold (complete e) ks r) = clock r"
  by (induction ks arbitrary: r) (simp_all add: complete_def)

lemma fold_max_start:
  fixes t0 :: rat
  shows "t0 \<le> fold (\<lambda>k t. max t (f k)) ks t0"
proof (induction ks arbitrary: t0)
  case Nil
  then show ?case by simp
next
  case (Cons k ks)
  have "t0 \<le> max t0 (f k)" by simp
  also have "\<dots> \<le> fold (\<lambda>k t. max t (f k)) ks (max t0 (f k))" by (rule Cons.IH)
  finally show ?case by simp
qed

lemma fold_max_member:
  fixes t0 :: rat
  shows "k \<in> set ks \<Longrightarrow> f k \<le> fold (\<lambda>k t. max t (f k)) ks t0"
proof (induction ks arbitrary: t0)
  case Nil
  then show ?case by simp
next
  case (Cons a ks)
  show ?case
  proof (cases "k = a")
    case True
    have "f a \<le> max t0 (f a)" by simp
    also have "\<dots> \<le> fold (\<lambda>k t. max t (f k)) ks (max t0 (f a))" by (rule fold_max_start)
    finally show ?thesis using True by simp
  next
    case False
    with Cons.prems have "k \<in> set ks" by simp
    from Cons.IH [OF this, of "max t0 (f a)"] show ?thesis by simp
  qed
qed

lemma gather_idle:
  assumes s: "scheduled r = []" and u: "running r = []"
  shows "set (resolved (gather e qs r)) = set (resolved r) \<union> req_id ` set qs \<and>
         issued (gather e qs r) = issued r \<and>
         scheduled (gather e qs r) = [] \<and> running (gather e qs r) = []"
proof -
  define gathered where
    "gathered = map (\<lambda>q. \<lparr>task_request = q, task_started = clock r\<rparr>) qs"
  define t_end where "t_end = fold (\<lambda>k t. max t (finish_time e k)) gathered (clock r)"
  define r1 where "r1 = start_tasks qs (r\<lparr>scheduled := []\<rparr>)"
  have g: "gather e qs r = advance e t_end r1"
    using s by (simp add: gather_def gathered_def t_end_def r1_def Let_def)
  have run1: "running r1 = gathered"
    using u by (simp add: r1_def start_tasks_def gathered_def)
  have due: "filter (\<lambda>k. finish_time e k \<le> t_end) gathered = gathered"
    unfolding t_end_def by (rule filter_True) (simp add: fold_max_member)
  have rest: "filter (\<lambda>k. \<not> finish_time e k \<le> t_end) gathered = []"
    unfolding t_end_def by (rule filter_False) (simp add: fold_max_member)
  have a: "advance e t_end r1 =
      (fold (complete e) (sort_key (finish_time e) gathered) r1)\<lparr>running := [], clock := t_end\<rparr>"
    by (simp add: advance_def run1 due rest)
  have ids: "(\<lambda>k. req_id (task_request k)) ` set gathered = req_id ` set qs"
    by (auto simp: gathered_def image_iff)
  have f1: "resolved r1 = resolved r" "issued r1 = issued r" "scheduled r1 = []"
    by (simp_all add: r1_def start_tasks_def)
  show ?thesis
    unfolding g a
    by (simp add: fold_complete_resolved fold_complete_frame f1 ids Un_commute)
qed

lemma spend_frame:
  "issued (spend e r) = issued r \<and> resolved (spend e r) = resolved r \<and>
   scheduled (spend e r) = scheduled r \<and> running (spend e r) = running r"
  by (simp add: spend_def)

lemma repeat_requests_ids:
  assumes body: "\<And>r q r'. body r = (q, r') \<Longrightarrow>
      req_id q = issued r \<and> issued r' = Suc (issued r) \<and> resolved r' = resolved r \<and>
      scheduled r' = scheduled r \<and> running r' = running r"
  shows "repeat_requests body n r = (qs, r') \<Longrightarrow>
      map req_id qs = [issued r..<issued r + n] \<and> issued r' = issued r + n \<and>
      resolved r' = resolved r \<and> scheduled r' = scheduled r \<and> running r' = running r"
proof (induction n arbitrary: r qs r')
  case 0
  then show ?case by simp
next
  case (Suc n)
  obtain q r1 where b: "body r = (q, r1)" by (cases "body r") auto
  obtain qs1 r2 where t: "repeat_requests body n r1 = (qs1, r2)"
    by (cases "repeat_requests body n r1") auto
  from Suc.prems b t have e: "qs = q # qs1" "r' = r2" by simp_all
  note h = body [OF b] Suc.IH [OF t]
  show ?case
    using h by (simp add: e upt_rec [of "issued r"])
qed

lemma ddos_request_ids:
  "ddos_request e r = (q, r') \<Longrightarrow>
      req_id q = issued r \<and> issued r' = Suc (issued r) \<and> resolved r' = resolved r \<and>
      scheduled r' = scheduled r \<and> running r' = running r"
  by (auto simp: ddos_request_def random_choice_def new_request_def Let_def)

lemma burst_request_ids:
  "burst_request e r = (q, r') \<Longrightarrow>
      req_id q = issued r \<and> issued r' = Suc (issued r) \<and> resolved r' = resolved r \<and>
      scheduled r' = scheduled r \<and> running r' = running r"
  by (auto simp: burst_request_def random_choice_def new_request_def Let_def split: if_splits)

lemma random_request_ids:
  "random_request e r = (q, r') \<Longrightarrow>
      req_id q = issued r \<and> issued r' = Suc (issued r) \<and> resolved r' = resolved r \<and>
      scheduled r' = scheduled r \<and> running r' = running r"
  by (auto simp: random_request_def random_choice_def new_request_def Let_def split: if_splits)

lemma database_heavy_request_ids:
  "database_heavy_request r = (q, r') \<Longrightarrow>
      req_id q = issued r \<and> issued r' = Suc (issued r) \<and> resolved r' = resolved r \<and>
      scheduled r' = scheduled r \<and> running r' = running r"
  by (auto simp: database_heavy_request_def new_request_def)

lemma database_queue_request_ids:
  "database_queue_request r = (q, r') \<Longrightarrow>
      req_id q = issued r \<and> issued r' = Suc (issued r) \<and> resolved r' = resolved r \<and>
      scheduled r' = scheduled r \<and> running r' = running r"
  by (auto simp: database_queue_request_def new_request_def Let_def)

lemma gather_settles:
  assumes "scheduled r = []" and "running r = []"
    and "\<forall>k < issued r. k \<in> set (resolved r) \<union> req_id ` set qs"
  shows "unresolved (gather e qs r) = [] \<and> scheduled (gather e qs r) = [] \<and>
         running (gather e qs r) = []"
  using gather_idle [OF assms(1,2), of e qs] assms(3)
  by (simp add: unresolved_empty_iff)

lemma covered_after_repeat:
  assumes body: "\<And>r q r'. body r = (q, r') \<Longrightarrow>
      req_id q = issued r \<and> issued r' = Suc (issued r) \<and> resolved r' = resolved r \<and>
      scheduled r' = scheduled r \<and> running r' = running r"
    and c: "\<forall>k < issued r. k \<in> set (resolved r) \<union> S"
    and t: "repeat_requests body n r = (qs, r')"
  shows "(\<forall>k < issued r'. k \<in> set (resolved r') \<union> (S \<union> req_id ` set qs)) \<and>
         scheduled r' = scheduled r \<and> running r' = running r"
proof -
  have h: "map req_id qs = [issued r..<issued r + n]" "issued r' = issued r + n"
      "resolved r' = resolved r" "scheduled r' = scheduled r" "running r' = running r"
    using repeat_requests_ids [of body n r qs r', OF body t] by simp_all
  have "req_id ` set qs = set (map req_id qs)" by simp
  also have "\<dots> = {issued r..<issued r + n}" by (simp add: h(1))
  finally have ids: "req_id ` set qs = {issued r..<issued r + n}" .
  have "\<forall>k < issued r'. k \<in> set (resolved r') \<union> (S \<union> req_id ` set qs)"
  proof (intro allI impI)
    fix k assume k: "k < issued r'"
    show "k \<in> set (resolved r') \<union> (S \<union> req_id ` set qs)"
    proof (cases "k < issued r")
      case True
      with c show ?thesis by (auto simp: h(3))
    next
      case False
      with k have "k \<in> {issued r..<issued r + n}" by (simp add: h(2))
      then show ?thesis by (simp add: ids)
    qed
  qed
  with h show ?thesis by simp
qed

lemma sleep_idle_frame:
  assumes "scheduled r = []" and "running r = []"
  shows "issued (sleep e d r) = issued r \<and> resolved (sleep e d r) = resolved r \<and>
         scheduled (sleep e d r) = [] \<and> running (sleep e d r) = [] \<and>
         unresolved (sleep e d r) = unresolved r"
  using assms by (simp add: sleep_idle unresolved_def)

lemma ddos_loop_covered:
  "scheduled r = [] \<Longrightarrow> running r = [] \<Longrightarrow>
   \<forall>k < issued r. k \<in> set (resolved r) \<union> req_id ` set tasks \<Longrightarrow>
   ddos_loop fuel e end_time rps tasks r = Some (tasks', r') \<Longrightarrow>
     scheduled r' = [] \<and> running r' = [] \<and>
     (\<forall>k < issued r'. k \<in> set (resolved r') \<union> req_id ` set tasks')"
proof (induction fuel arbitrary: r tasks)
  case 0
  then show ?case by (simp split: if_splits)
next
  case (Suc fuel)
  show ?case
  proof (cases "clock r < end_time")
    case False
    with Suc.prems show ?thesis by simp
  next
    case True
    obtain qs r1 where t: "repeat_requests (ddos_request e) (nat (rps div 10)) r = (qs, r1)"
      by (cases "repeat_requests (ddos_request e) (nat (rps div 10)) r") auto
    define r3 where "r3 = sleep e (1 / 10) (spend e r1)"
    have c1: "(\<forall>k < issued r1. k \<in> set (resolved r1) \<union> (req_id ` set tasks \<union> req_id ` set qs)) \<and>
        scheduled r1 = scheduled r \<and> running r1 = running r"
      by (rule covered_after_repeat [OF ddos_request_ids Suc.prems(3) t])
    have i2: "scheduled (spend e r1) = []" "running (spend e r1) = []"
      using c1 Suc.prems(1,2) by (simp_all add: spend_def)
    have f3: "issued r3 = issued r1" "resolved r3 = resolved r1" "scheduled r3 = []"
        "running r3 = []"
      using sleep_idle_frame [OF i2, of e "1 / 10"] by (simp_all add: r3_def spend_def)
    have c3: "\<forall>k < issued r3. k \<in> set (resolved r3) \<union> req_id ` set (tasks @ qs)"
      using c1 by (simp add: f3 image_Un)
    have l: "ddos_loop fuel e end_time rps (tasks @ qs) r3 = Some (tasks', r')"
      using Suc.prems(4) True t by (simp add: r3_def)
    show ?thesis
      by (rule Suc.IH [OF f3(3) f3(4) c3 l])
  qed
qed

lemma burst_loop_settled:
  "scheduled r = [] \<Longrightarrow> running r = [] \<Longrightarrow> unresolved r = [] \<Longrightarrow>
   burst_loop fuel e end_time burst_size interval r = Some r' \<Longrightarrow>
     scheduled r' = [] \<and> running r' = [] \<and> unresolved r' = []"
proof (induction fuel arbitrary: r)
  case 0
  then show ?case by (simp split: if_splits)
next
  case (Suc fuel)
  show ?case
  proof (cases "clock r < end_time")
    case False
    with Suc.prems show ?thesis by simp
  next
    case True
    obtain qs r1 where t: "repeat_requests (burst_request e) (nat burst_size) r = (qs, r1)"
      by (cases "repeat_requests (burst_request e) (nat burst_size) r") auto
    define r3 where "r3 = gather e qs (spend e r1)"
    define r4 where "r4 = sleep e (of_int interval) r3"
    have c0: "\<forall>k < issued r. k \<in> set (resolved r) \<union> {}"
      using Suc.prems(3) by (simp add: unresolved_empty_iff)
    have c1: "(\<forall>k < issued r1. k \<in> set (resolved r1) \<union> ({} \<union> req_id ` set qs)) \<and>
        scheduled r1 = scheduled r \<and> running r1 = running r"
      by (rule covered_after_repeat [OF burst_request_ids c0 t])
    have i2: "scheduled (spend e r1) = []" "running (spend e r1) = []"
      using c1 Suc.prems(1,2) by (simp_all add: spend_def)
    have c2: "\<forall>k < issued (spend e r1). k \<in> set (resolved (spend e r1)) \<union> req_id ` set qs"
      using c1 by (simp add: spend_def)
    have s3: "unresolved r3 = [] \<and> scheduled r3 = [] \<and> running r3 = []"
      unfolding r3_def by (rule gather_settles [OF i2 c2])
    then have s4: "scheduled r4 = []" "running r4 = []" "unresolved r4 = []"
      using sleep_idle_frame [of r3 e "of_int interval"] by (simp_all add: r4_def)
    have l: "burst_loop fuel e end_time burst_size interval r4 = Some r'"
      using Suc.prems(4) True t by (simp add: r4_def r3_def)
    show ?thesis
      by (rule Suc.IH [OF s4 l])
  qed
qed

lemma random_loop_settled:
  "scheduled r = [] \<Longrightarrow> running r = [] \<Longrightarrow> unresolved r = [] \<Longrightarrow>
   random_loop fuel e end_time max_rps r = Some (Inr r') \<Longrightarrow>
     scheduled r' = [] \<and> running r' = [] \<and> unresolved r' = []"
proof (induction fuel arbitrary: r)
  case 0
  then show ?case by (simp split: if_splits)
next
  case (Suc fuel)
  show ?case
  proof (cases "clock r < end_time")
    case False
    with Suc.prems show ?thesis by simp
  next
    case True
    show ?thesis
    proof (cases "random_randint e 0 max_rps r")
      case (Inl err)
      with Suc.prems(4) True show ?thesis by simp
    next
      case (Inr p)
      obtain current_rps r1 where p: "p = (current_rps, r1)" by (cases p) auto
      have r1: "r1 = r\<lparr>draws := draws r + 1\<rparr>"
        using Inr p by (auto simp: random_randint_def split: if_splits)
      define r2 where "r2 = spend e r1"
      obtain qs r2' where t: "repeat_requests (random_request e) (nat current_rps) r2 = (qs, r2')"
        by (cases "repeat_requests (random_request e) (nat current_rps) r2") auto
      define r3 where "r3 = (if current_rps > 0 then gather e qs r2' else r2)"
      define r4 where "r4 = snd (random_uniform e (1 / 10) 2 r3)"
      define pause where "pause = fst (random_uniform e (1 / 10) 2 r3)"
      define r5 where "r5 = sleep e pause r4"
      have i2: "scheduled r2 = []" "running r2 = []" "unresolved r2 = []"
        using Suc.prems(1,2,3) by (simp_all add: r2_def r1 spend_def unresolved_def)
      have c0: "\<forall>k < issued r2. k \<in> set (resolved r2) \<union> {}"
        using i2(3) by (simp add: unresolved_empty_iff)
      have c1: "(\<forall>k < issued r2'. k \<in> set (resolved r2') \<union> ({} \<union> req_id ` set qs)) \<and>
          scheduled r2' = scheduled r2 \<and> running r2' = running r2"
        by (rule covered_after_repeat [OF random_request_ids c0 t])
      have g: "unresolved (gather e qs r2') = [] \<and> scheduled (gather e qs r2') = [] \<and>
          running (gather e qs r2') = []"
        using c1 i2 by (intro gather_settles) simp_all
      have s3: "scheduled r3 = []" "running r3 = []" "unresolved r3 = []"
        using g i2 by (simp_all add: r3_def)
      have s4: "scheduled r4 = []" "running r4 = []" "unresolved r4 = []"
        using s3 by (simp_all add: r4_def random_uniform_def unresolved_def)
      have s5: "scheduled r5 = []" "running r5 = []" "unresolved r5 = []"
        using sleep_idle_frame [OF s4(1,2), of e pause] s4(3) by (simp_all add: r5_def)
      have l: "random_loop fuel e end_time max_rps r5 = Some (Inr r')"
        using Suc.prems(4) True Inr p t
        by (cases "0 < current_rps")
          (simp_all add: r5_def r4_def pause_def r3_def r2_def split_beta Let_def)
      show ?thesis
        by (rule Suc.IH [OF s5 l])
    qed
  qed
qed

lemma database_loop_settled:
  "scheduled r = [] \<Longrightarrow> running r = [] \<Longrightarrow> unresolved r = [] \<Longrightarrow>
   database_loop fuel e end_time r = Some r' \<Longrightarrow>
     scheduled r' = [] \<and> running r' = [] \<and> unresolved r' = []"
proof (induction fuel arbitrary: r)
  case 0
  then show ?case by (simp split: if_splits)
next
  case (Suc fuel)
  show ?case
  proof (cases "clock r < end_time")
    case False
    with Suc.prems show ?thesis by simp
  next
    case True
    obtain heavy r1 where t1: "repeat_requests database_heavy_request 50 r = (heavy, r1)"
      by (cases "repeat_requests database_heavy_request 50 r") auto
    obtain queue r2 where t2: "repeat_requests database_queue_request 20 r1 = (queue, r2)"
      by (cases "repeat_requests database_queue_request 20 r1") auto
    define r4 where "r4 = gather e (heavy @ queue) (spend e r2)"
    define r5 where "r5 = sleep e (1 / 2) r4"
    have c0: "\<forall>k < issued r. k \<in> set (resolved r) \<union> {}"
      using Suc.prems(3) by (simp add: unresolved_empty_iff)
    have c1: "(\<forall>k < issued r1. k \<in> set (resolved r1) \<union> ({} \<union> req_id ` set heavy)) \<and>
        scheduled r1 = scheduled r \<and> running r1 = running r"
      by (rule covered_after_repeat [OF database_heavy_request_ids c0 t1])
    then have c1': "\<forall>k < issued r1. k \<in> set (resolved r1) \<union> req_id ` set heavy"
      by simp
    have c2: "(\<forall>k < issued r2. k \<in> set (resolved r2) \<union> (req_id ` set heavy \<union> req_id ` set queue)) \<and>
        scheduled r2 = scheduled r1 \<and> running r2 = running r1"
      by (rule covered_after_repeat [OF database_queue_request_ids c1' t2])
    have i3: "scheduled (spend e r2) = []" "running (spend e r2) = []"
      using c1 c2 Suc.prems(1,2) by (simp_all add: spend_def)
    have c3: "\<forall>k < issued (spend e r2).
        k \<in> set (resolved (spend e r2)) \<union> req_id ` set (heavy @ queue)"
      using c2 by (simp add: spend_def image_Un)
    have s4: "unresolved r4 = [] \<and> scheduled r4 = [] \<and> running r4 = []"
      unfolding r4_def by (rule gather_settles [OF i3 c3])
    then have s5: "scheduled r5 = []" "running r5 = []" "unresolved r5 = []"
      using sleep_idle_frame [of r4 e "1 / 2"] by (simp_all add: r5_def)
    have l: "database_loop fuel e end_time r5 = Some r'"
      using Suc.prems(4) True t1 t2 by (simp add: r5_def r4_def)
    show ?thesis
      by (rule Suc.IH [OF s5 l])
  qed
qed

lemma start_run_settled:
  "scheduled (start_run t0) = [] \<and> running (start_run t0) = [] \<and> unresolved (start_run t0) = []"
  by (simp add: start_run_def unresolved_def)

lemma report_run: "report r = Inr (r', ls) \<Longrightarrow> r' = r"
  by (auto simp: report_def split: sum.splits)

lemma print_stats_returns:
  "total_requests st \<noteq> 0 \<Longrightarrow> \<exists>ls. print_stats st = Inr ls"
  by (simp add: print_stats_def Let_def)

lemma busy_horizon: "clock (start_run 0) + of_int 1 = (1::rat)"
  by (simp add: start_run_def)

lemma busy_ddos:
  "\<exists>r ls. ddos_attack 1 busy_env 1 20 (start_run 0) = Some (Inr (r, ls)) \<and> issued r = 2"
proof -
  have "case ddos_loop 1 busy_env 1 20 [] (start_run 0) of
          Some (qs, r) \<Rightarrow> total_requests (gun_stats (gather busy_env qs r)) = 2 \<and>
            issued (gather busy_env qs r) = 2
        | None \<Rightarrow> False"
    by code_simp
  then obtain qs r1 where l: "ddos_loop 1 busy_env 1 20 [] (start_run 0) = Some (qs, r1)"
    and t: "total_requests (gun_stats (gather busy_env qs r1)) = 2"
    and i: "issued (gather busy_env qs r1) = 2"
    by (auto split: option.splits)
  from t obtain ls where p: "print_stats (gun_stats (gather busy_env qs r1)) = Inr ls"
    using print_stats_returns [of "gun_stats (gather busy_env qs r1)"] by auto
  have "ddos_attack 1 busy_env 1 20 (start_run 0) = Some (Inr (gather busy_env qs r1, ls))"
    unfolding ddos_attack_def Let_def busy_horizon l report_def by (simp add: p)
  with i show ?thesis by blast
qed

lemma busy_burst:
  "\<exists>r ls. burst_attack 1 busy_env 2 1 1 (start_run 0) = Some (Inr (r, ls)) \<and> issued r = 2"
proof -
  have "case burst_loop 1 busy_env 1 2 1 (start_run 0) of
          Some r \<Rightarrow> total_requests (gun_stats r) = 2 \<and> issued r = 2
        | None \<Rightarrow> False"
    by code_simp
  then obtain r1 where l: "burst_loop 1 busy_env 1 2 1 (start_run 0) = Some r1"
    and t: "total_requests (gun_stats r1) = 2" and i: "issued r1 = 2"
    by (auto split: option.splits)
  from t obtain ls where p: "print_stats (gun_stats r1) = Inr ls"
    using print_stats_returns [of "gun_stats r1"] by auto
  have "burst_attack 1 busy_env 2 1 1 (start_run 0) = Some (Inr (r1, ls))"
    unfolding burst_attack_def Let_def busy_horizon l report_def by (simp add: p)
  with i show ?thesis by blast
qed

lemma busy_random:
  "\<exists>r ls. random_attack 1 busy_env 3 1 (start_run 0) = Some (Inr (r, ls)) \<and> issued r = 1"
proof -
  have "case random_loop 1 busy_env 1 3 (start_run 0) of
          Some (Inr r) \<Rightarrow> total_requests (gun_stats r) = 1 \<and> issued r = 1
        | _ \<Rightarrow> False"
    by code_simp
  then obtain r1 where l: "random_loop 1 busy_env 1 3 (start_run 0) = Some (Inr r1)"
    and t: "total_requests (gun_stats r1) = 1" and i: "issued r1 = 1"
    by (auto split: option.splits sum.splits)
  from t obtain ls where p: "print_stats (gun_stats r1) = Inr ls"
    using print_stats_returns [of "gun_stats r1"] by auto
  have "random_attack 1 busy_env 3 1 (start_run 0) = Some (Inr (r1, ls))"
    unfolding random_attack_def Let_def busy_horizon l report_def by (simp add: p)
  with i show ?thesis by blast
qed

lemma advance_frame:
  "issued (advance e t r) = issued r \<and> clock (advance e t r) = t"
  by (simp add: advance_def Let_def fold_complete_frame)

lemma gather_frame:
  "issued (gather e qs r) = issued r \<and> clock r \<le> clock (gather e qs r)"
  by (simp add: gather_def Let_def advance_frame start_tasks_def fold_max_start)

lemma sleep_frame:
  "issued (sleep e d r) = issued r \<and> clock (sleep e d r) = clock r + max 0 d"
  by (simp add: sleep_def Let_def advance_frame start_tasks_def)

lemma record_call_keeps_order:
  "int (length (response_times st)) \<le> total_requests st \<Longrightarrow>
     int (length (response_times (record_call st c))) \<le> total_requests (record_call st c)"
  by (simp add: record_call_total record_call_length_times)

lemma fold_complete_keeps_order:
  "int (length (response_times (gun_stats r))) \<le> total_requests (gun_stats r) \<Longrightarrow>
     int (length (response_times (gun_stats (fold (complete e) ks r)))) \<le>
       total_requests (gun_stats (fold (complete e) ks r))"
proof (induction ks arbitrary: r)
  case Nil
  then show ?case by simp
next
  case (Cons k ks)
  have "int (length (response_times (gun_stats (complete e k r)))) \<le>
      total_requests (gun_stats (complete e k r))"
    using Cons.prems by (simp add: complete_def record_call_keeps_order del: record_call.simps)
  from Cons.IH [OF this] show ?case by simp
qed

lemma advance_keeps_order:
  "int (length (response_times (gun_stats r))) \<le> total_requests (gun_stats r) \<Longrightarrow>
     int (length (response_times (gun_stats (advance e t r)))) \<le>
       total_requests (gun_stats (advance e t r))"
  by (simp add: advance_def Let_def fold_complete_keeps_order)

lemma gather_keeps_order:
  "int (length (response_times (gun_stats r))) \<le> total_requests (gun_stats r) \<Longrightarrow>
     int (length (response_times (gun_stats (gather e qs r)))) \<le>
       total_requests (gun_stats (gather e qs r))"
  unfolding gather_def Let_def by (rule advance_keeps_order) (simp add: start_tasks_def)

lemma sleep_keeps_order:
  "int (length (response_times (gun_stats r))) \<le> total_requests (gun_stats r) \<Longrightarrow>
     int (length (response_times (gun_stats (sleep e d r)))) \<le>
       total_requests (gun_stats (sleep e d r))"
  unfolding sleep_def Let_def by (rule advance_keeps_order) (simp add: start_tasks_def)

lemma print_stats_in_order:
  "int (length (response_times st)) \<le> total_requests st \<Longrightarrow> \<exists>ls. print_stats st = Inr ls"
  by (cases "response_times st") (auto simp: print_stats_def Let_def)

lemma repeat_requests_frame:
  assumes body: "\<And>r q r'. body r = (q, r') \<Longrightarrow>
      gun_stats r' = gun_stats r \<and> clock r' = clock r \<and> ticks r' = ticks r"
  shows "repeat_requests body n r = (qs, r') \<Longrightarrow>
      gun_stats r' = gun_stats r \<and> clock r' = clock r \<and> ticks r' = ticks r"
proof (induction n arbitrary: r qs r')
  case 0
  then show ?case by simp
next
  case (Suc n)
  obtain q r1 where b: "body r = (q, r1)" by (cases "body r") auto
  obtain qs1 r2 where t: "repeat_requests body n r1 = (qs1, r2)"
    by (cases "repeat_requests body n r1") auto
  from Suc.prems b t have e: "r' = r2" by simp
  show ?case
    using body [OF b] Suc.IH [OF t] by (simp add: e)
qed

lemma busy_database:
  "\<exists>r ls. database_attack 1 busy_env 1 (start_run 0) = Some (Inr (r, ls)) \<and> issued r = 70"
proof -
  obtain heavy r1 where t1: "repeat_requests database_heavy_request 50 (start_run 0) = (heavy, r1)"
    by (cases "repeat_requests database_heavy_request 50 (start_run 0)") auto
  obtain queue r2 where t2: "repeat_requests database_queue_request 20 r1 = (queue, r2)"
    by (cases "repeat_requests database_queue_request 20 r1") auto
  define r4 where "r4 = gather busy_env (heavy @ queue) (spend busy_env r2)"
  define r5 where "r5 = sleep busy_env (1 / 2) r4"
  have f1: "gun_stats r1 = gun_stats (start_run 0) \<and> clock r1 = clock (start_run 0) \<and>
      ticks r1 = ticks (start_run 0)"
    by (rule repeat_requests_frame [OF _ t1])
      (auto simp: database_heavy_request_def new_request_def)
  have f2: "gun_stats r2 = gun_stats r1 \<and> clock r2 = clock r1 \<and> ticks r2 = ticks r1"
    by (rule repeat_requests_frame [OF _ t2])
      (auto simp: database_queue_request_def new_request_def Let_def)
  have i1: "issued r1 = 50"
    using repeat_requests_ids [OF database_heavy_request_ids t1] by (simp add: start_run_def)
  have i2: "issued r2 = 70"
    using repeat_requests_ids [OF database_queue_request_ids t2] i1 by simp
  have c3: "clock (spend busy_env r2) = 1" "issued (spend busy_env r2) = 70"
      "gun_stats (spend busy_env r2) = init_stats"
    using f1 f2 i2 by (simp_all add: spend_def busy_env_def start_run_def)
  have c4: "1 \<le> clock r4" "issued r4 = 70"
    using gather_frame [of busy_env "heavy @ queue" "spend busy_env r2"] c3
    by (simp_all add: r4_def)
  have c5: "\<not> clock r5 < 1" "issued r5 = 70"
    using sleep_frame [of busy_env "1 / 2" r4] c4 by (simp_all add: r5_def)
  have "int (length (response_times (gun_stats r4))) \<le> total_requests (gun_stats r4)"
    unfolding r4_def by (rule gather_keeps_order) (simp add: c3 init_stats_def)
  then have "int (length (response_times (gun_stats r5))) \<le> total_requests (gun_stats r5)"
    unfolding r5_def by (rule sleep_keeps_order)
  then obtain ls where p: "print_stats (gun_stats r5) = Inr ls"
    using print_stats_in_order by blast
  have l0: "database_loop 0 busy_env 1 r5 = Some r5"
    using c5 by simp
  have "database_loop (Suc 0) busy_env 1 (start_run 0) = Some r5"
    using t1 t2 l0 by (simp add: r5_def r4_def start_run_def [where ?t0.0 = 0, THEN arg_cong [of _ _ clock]])
  then have l1: "database_loop 1 busy_env 1 (start_run 0) = Some r5"
    by (simp only: One_nat_def)
  have "database_attack 1 busy_env 1 (start_run 0) = Some (Inr (r5, ls))"
    unfolding database_attack_def Let_def busy_horizon l1 report_def by (simp add: p)
  with c5 show ?thesis by blast
qed

subsection \<open>The report and the requests in flight\<close>

text \<open>
  Claim C2, as the code has it. A run of the DDoS, Burst, Random or Database strategy on
  a fresh gun prints its report only when every request it created has been awaited: each
  of them gathers the requests of a tick before the next tick (DDoS gathers all of them
  after its loop), so at the report no request is unresolved.
\<close>

theorem barrier_strategies_report_after_resolution:
  "(ddos_attack fuel e duration rps (start_run t0) = Some (Inr (r, ls)) \<longrightarrow>
      unresolved r = []) \<and>
   (burst_attack fuel e burst_size interval duration (start_run t0) = Some (Inr (r, ls)) \<longrightarrow>
      unresolved r = []) \<and>
   (random_attack fuel e max_rps duration (start_run t0) = Some (Inr (r, ls)) \<longrightarrow>
      unresolved r = []) \<and>
   (database_attack fuel e duration (start_run t0) = Some (Inr (r, ls)) \<longrightarrow>
      unresolved r = [])"
proof (intro conjI impI)
  assume a: "ddos_attack fuel e duration rps (start_run t0) = Some (Inr (r, ls))"
  then obtain tasks r1 where
    l: "ddos_loop fuel e (clock (start_run t0) + of_int duration) rps [] (start_run t0) =
          Some (tasks, r1)"
    and g: "report (gather e tasks r1) = Inr (r, ls)"
    by (auto simp: ddos_attack_def Let_def split: option.splits)
  have c0: "\<forall>k < issued (start_run t0). k \<in> set (resolved (start_run t0)) \<union> req_id ` set []"
    by (simp add: start_run_def)
  have "scheduled r1 = [] \<and> running r1 = [] \<and>
      (\<forall>k < issued r1. k \<in> set (resolved r1) \<union> req_id ` set tasks)"
    using start_run_settled [of t0] by (intro ddos_loop_covered [OF _ _ c0 l]) simp_all
  then have "unresolved (gather e tasks r1) = []"
    using gather_settles [of r1 tasks e] by simp
  with report_run [OF g] show "unresolved r = []" by simp
next
  assume a: "burst_attack fuel e burst_size interval duration (start_run t0) = Some (Inr (r, ls))"
  then obtain r1 where
    l: "burst_loop fuel e (clock (start_run t0) + of_int duration) burst_size interval
          (start_run t0) = Some r1"
    and g: "report r1 = Inr (r, ls)"
    by (auto simp: burst_attack_def Let_def split: option.splits)
  have "unresolved r1 = []"
    using start_run_settled [of t0] burst_loop_settled [OF _ _ _ l] by simp
  with report_run [OF g] show "unresolved r = []" by simp
next
  assume a: "random_attack fuel e max_rps duration (start_run t0) = Some (Inr (r, ls))"
  then obtain r1 where
    l: "random_loop fuel e (clock (start_run t0) + of_int duration) max_rps (start_run t0) =
          Some (Inr r1)"
    and g: "report r1 = Inr (r, ls)"
    by (auto simp: random_attack_def Let_def split: option.splits sum.splits)
  have "unresolved r1 = []"
    using start_run_settled [of t0] random_loop_settled [OF _ _ _ l] by simp
  with report_run [OF g] show "unresolved r = []" by simp
next
  assume a: "database_attack fuel e duration (start_run t0) = Some (Inr (r, ls))"
  then obtain r1 where
    l: "database_loop fuel e (clock (start_run t0) + of_int duration) (start_run t0) = Some r1"
    and g: "report r1 = Inr (r, ls)"
    by (auto simp: database_attack_def Let_def split: option.splits)
  have "unresolved r1 = []"
    using start_run_settled [of t0] database_loop_settled [OF _ _ _ l] by simp
  with report_run [OF g] show "unresolved r = []" by simp
qed

text \<open>
  The theorem at work: one tick of each of the four strategies against a target that
  answers; the runs create 2, 2, 1 and 70 requests.
\<close>

theorem barrier_strategies_report_after_resolution_witness:
  "(\<exists>r ls. ddos_attack 1 busy_env 1 20 (start_run 0) = Some (Inr (r, ls)) \<and>
      issued r = 2 \<and> unresolved r = []) \<and>
   (\<exists>r ls. burst_attack 1 busy_env 2 1 1 (start_run 0) = Some (Inr (r, ls)) \<and>
      issued r = 2 \<and> unresolved r = []) \<and>
   (\<exists>r ls. random_attack 1 busy_env 3 1 (start_run 0) = Some (Inr (r, ls)) \<and>
      issued r = 1 \<and> unresolved r = []) \<and>
   (\<exists>r ls. database_attack 1 busy_env 1 (start_run 0) = Some (Inr (r, ls)) \<and>
      issued r = 70 \<and> unresolved r = [])"
proof (intro conjI)
  from busy_ddos obtain r ls where
    a: "ddos_attack 1 busy_env 1 20 (start_run 0) = Some (Inr (r, ls))" and i: "issued r = 2"
    by blast
  from barrier_strategies_report_after_resolution [of 1 busy_env 1 20 0 r ls] a
  have "unresolved r = []" by blast
  with a i show "\<exists>r ls. ddos_attack 1 busy_env 1 20 (start_run 0) = Some (Inr (r, ls)) \<and>
      issued r = 2 \<and> unresolved r = []" by blast
next
  from busy_burst obtain r ls where
    a: "burst_attack 1 busy_env 2 1 1 (start_run 0) = Some (Inr (r, ls))" and i: "issued r = 2"
    by blast
  from barrier_strategies_report_after_resolution [of 1 busy_env 1 _ 0 r ls 2 1] a
  have "unresolved r = []" by blast
  with a i show "\<exists>r ls. burst_attack 1 busy_env 2 1 1 (start_run 0) = Some (Inr (r, ls)) \<and>
      issued r = 2 \<and> unresolved r = []" by blast
next
  from busy_random obtain r ls where
    a: "random_attack 1 busy_env 3 1 (start_run 0) = Some (Inr (r, ls))" and i: "issued r = 1"
    by blast
  from barrier_strategies_report_after_resolution [of 1 busy_env 1 _ 0 r ls _ _ 3] a
  have "unresolved r = []" by blast
  with a i show "\<exists>r ls. random_attack 1 busy_env 3 1 (start_run 0) = Some (Inr (r, ls)) \<and>
      issued r = 1 \<and> unresolved r = []" by blast
next
  from busy_database obtain r ls where
    a: "database_attack 1 busy_env 1 (start_run 0) = Some (Inr (r, ls))" and i: "issued r = 70"
    by blast
  from barrier_strategies_report_after_resolution [of 1 busy_env 1 _ 0 r ls] a
  have "unresolved r = []" by blast
  with a i show "\<exists>r ls. database_attack 1 busy_env 1 (start_run 0) = Some (Inr (r, ls)) \<and>
      issued r = 70 \<and> unresolved r = []" by blast
qed

text \<open>
  Claim C2 as stated fails for Sustained, which creates a task for each request and
  never awaits it: at one request per second for one second, against a target that takes
  five seconds to answer, the report is printed ("No requests completed") while request
  0 is still in flight.
\<close>

theorem sustained_reports_before_resolution_counterexample:
  "(case sustained_attack 1
           \<lparr>respond = (\<lambda>k. Responds 200 5 ''{}'' 0), pick = (\<lambda>k. 3),
            fake_text = (\<lambda>k. ''''), overhead = (\<lambda>k. 0)\<rparr>
           1 1 (start_run 0) of
      Some (Inr (r, ls)) \<Rightarrow> unresolved r = [0] \<and> ls = [NoRequestsCompleted]
    | _ \<Rightarrow> False)"
  by code_simp

end
